theory Spec2Isabelle
  imports Main "HOL-Library.Word" "HOL-Library.Code_Target_Numeral"
begin

unbundle bit_operations_syntax

section \<open>The oracle hash table of rax-test.c\<close>

text \<open>
  A C byte buffer handed over as a pointer together with its length (\<open>unsigned char *s,
  size_t len\<close>) is the list of the \<open>len\<close> bytes it designates; \<open>void *\<close> values are
  64-bit words (LP64). A bucket chain, linked through \<open>next\<close>, is the list of its nodes
  from the head; a node keeps \<open>key\<close> (the \<open>keylen\<close> bytes that \<open>key\<close> points to)
  and \<open>data\<close>. The bucket array \<open>table[HT_TABLE_SIZE]\<close> is a function of the slot index,
  of which only the slots below \<open>HT_TABLE_SIZE\<close> exist.
\<close>

type_synonym byte = "8 word"
type_synonym ptr = "64 word"

definition HT_TABLE_SIZE :: nat where
  "HT_TABLE_SIZE = 100000"

record htNode =
  key :: "byte list"
  data :: ptr

record hashtable =
  numele :: "64 word"
  table :: "nat \<Rightarrow> htNode list"

text \<open>
  \<open>htNew\<close> obtains the table with \<open>malloc\<close> and assigns \<open>numele\<close> only. The bucket array
  keeps whatever the allocated memory held, which \<open>malloc\<close> leaves indeterminate: that
  content is the argument \<open>mem\<close>.
\<close>

definition htNew :: "(nat \<Rightarrow> htNode list) \<Rightarrow> hashtable" where
  "htNew mem = \<lparr>numele = 0, table = mem\<rparr>"

text \<open>
  The djb2 loop of \<open>htHash\<close> on \<open>uint32_t\<close>, one step per byte, then the reduction
  \<open>hash % HT_TABLE_SIZE\<close>.
\<close>

fun djb2_loop :: "32 word \<Rightarrow> byte list \<Rightarrow> 32 word" where
  "djb2_loop hash [] = hash"
| "djb2_loop hash (c # s) = djb2_loop (hash * 33 + ucast c) s"

definition htHash :: "byte list \<Rightarrow> 32 word" where
  "htHash s = djb2_loop 5381 s mod 100000"

text \<open>
  \<open>memcmp\<close> of the C library on the first \<open>n\<close> bytes of two buffers: zero when they agree,
  otherwise the sign of the first difference (bytes compared as \<open>unsigned char\<close>). The
  lookup calls it on two buffers of \<open>n\<close> bytes, after comparing the lengths.
\<close>

fun compare_bytes :: "byte list \<Rightarrow> byte list \<Rightarrow> int" where
  "compare_bytes (a # as) (b # bs) =
     (if a = b then compare_bytes as bs else if a < b then - 1 else 1)"
| "compare_bytes as bs = 0"

definition memcmp :: "byte list \<Rightarrow> byte list \<Rightarrow> nat \<Rightarrow> int" where
  "memcmp as bs n = compare_bytes (take n as) (take n bs)"

text \<open>
  The \<open>while (n)\<close> loop of \<open>htRawLookup\<close> over one chain. The node found is named by its
  position in the chain; the link that points at it (\<open>*parentlink\<close>) is the link at that
  position: the bucket slot itself for position 0, the \<open>next\<close> field of the node before
  it otherwise.
\<close>

fun chain_lookup :: "htNode list \<Rightarrow> byte list \<Rightarrow> nat option" where
  "chain_lookup [] s = None"
| "chain_lookup (n # ns) s =
     (if length (key n) = length s \<and> memcmp (key n) s (length s) = 0 then Some 0
      else map_option Suc (chain_lookup ns s))"

definition htRawLookup :: "hashtable \<Rightarrow> byte list \<Rightarrow> 32 word \<times> nat option" where
  "htRawLookup t s = (let h = htHash s in (h, chain_lookup (table t (unat h)) s))"

definition htAdd :: "hashtable \<Rightarrow> byte list \<Rightarrow> ptr \<Rightarrow> int \<times> hashtable" where
  "htAdd t s d =
     (case htRawLookup t s of
        (hash, None) \<Rightarrow>
          (1, t\<lparr>table := (table t)(unat hash := \<lparr>key = s, data = d\<rparr> # table t (unat hash)),
                numele := numele t + 1\<rparr>)
      | (hash, Some k) \<Rightarrow>
          (0, t\<lparr>table := (table t)(unat hash :=
                 (table t (unat hash))[k := (table t (unat hash) ! k)\<lparr>data := d\<rparr>])\<rparr>))"

definition htRem :: "hashtable \<Rightarrow> byte list \<Rightarrow> int \<times> hashtable" where
  "htRem t s =
     (case htRawLookup t s of
        (hash, None) \<Rightarrow> (0, t)
      | (hash, Some k) \<Rightarrow>
          (1, t\<lparr>table := (table t)(unat hash :=
                 take k (table t (unat hash)) @ drop (Suc k) (table t (unat hash)))\<rparr>))"

text \<open>
  \<open>htNotFound\<close> is the address of a string literal, fixed by the linker: the argument
  \<open>nf\<close> of \<open>htFind\<close>.
\<close>

definition htFind :: "ptr \<Rightarrow> hashtable \<Rightarrow> byte list \<Rightarrow> ptr" where
  "htFind nf t s =
     (case htRawLookup t s of
        (hash, None) \<Rightarrow> nf
      | (hash, Some k) \<Rightarrow> data (table t (unat hash) ! k))"

text \<open>The hash as the specification words it: djb2 on natural numbers, wrapping at \<open>2^32\<close>.\<close>

fun djb2_spec :: "nat \<Rightarrow> nat list \<Rightarrow> nat" where
  "djb2_spec hash [] = hash"
| "djb2_spec hash (b # bs) = djb2_spec ((hash * 33 + b) mod 2 ^ 32) bs"

definition hash_spec :: "nat list \<Rightarrow> nat" where
  "hash_spec bs = djb2_spec 5381 bs mod 100000"

text \<open>
  The table invariant of the specification: no two entries reachable from the bucket array
  have the same key (the same length and the same bytes, that is the same list). It says
  that no chain holds a key twice and that no key occurs in two chains.
\<close>

definition no_dup_keys :: "hashtable \<Rightarrow> bool" where
  "no_dup_keys t =
     ((\<forall>h < HT_TABLE_SIZE. distinct (map key (table t h))) \<and>
      (\<forall>h < HT_TABLE_SIZE. \<forall>h' < HT_TABLE_SIZE.
          h \<noteq> h' \<longrightarrow> key ` set (table t h) \<inter> key ` set (table t h') = {}))"

text \<open>Every entry is chained in the bucket that its own key hashes to.\<close>

definition in_own_bucket :: "hashtable \<Rightarrow> bool" where
  "in_own_bucket t = (\<forall>h < HT_TABLE_SIZE. \<forall>n \<in> set (table t h). unat (htHash (key n)) = h)"

text \<open>
  A table with three entries, two of them in one chain: the keys \<open>"ad"\<close> and \<open>"bC"\<close>
  both hash to 63210 and \<open>"a"\<close> hashes to 77670. It is the table that \<open>htAdd\<close> of
  \<open>"ad"\<close>, \<open>"bC"\<close> and \<open>"a"\<close> builds from the empty one.
\<close>

definition sample_table :: hashtable where
  "sample_table =
     \<lparr>numele = 3,
      table = (\<lambda>_. [])
        (63210 := [\<lparr>key = [98, 67], data = 2\<rparr>, \<lparr>key = [97, 100], data = 1\<rparr>],
         77670 := [\<lparr>key = [97], data = 3\<rparr>])\<rparr>"

section \<open>Key generation\<close>

text \<open>
  A buffer \<open>char *s\<close> that a function writes into is the memory from \<open>s\<close> on, a function
  from offsets to bytes; its capacity is what the caller passes as \<open>maxlen\<close>. The key a
  caller takes from a buffer and a returned length is \<open>key_bytes\<close>.
\<close>

type_synonym buffer = "nat \<Rightarrow> byte"

definition key_bytes :: "buffer \<Rightarrow> nat \<Rightarrow> byte list" where
  "key_bytes s n = map s [0..<n]"

text \<open>
  The Feistel loop of \<open>int2int\<close> on the \<open>uint16_t\<close> halves. The round function is
  computed in \<open>int\<close>, to which C promotes \<open>r\<close>; its value stays below \<open>2^31\<close>. The
  result \<open>(r<<16)|l\<close> is the 32-bit pattern with \<open>r\<close> in the upper half and \<open>l\<close> in the
  lower one.
\<close>

function int2int_loop :: "nat \<Rightarrow> 16 word \<Rightarrow> 16 word \<Rightarrow> 16 word \<times> 16 word" where
  "int2int_loop i l r =
     (if i < 8 then
        let nl = r;
            F = (word_of_int ((((uint r * 31) + drop_bit 5 (uint r) + 7 * 371) XOR uint r)
                   AND 0xffff) :: 16 word);
            r' = l XOR F;
            l' = nl
        in int2int_loop (i + 1) l' r'
      else (l, r))"
  by pat_completeness auto
termination
  by (relation "measure (\<lambda>(i, l, r). 8 - i)") auto

declare int2int_loop.simps [simp del]

definition int2int :: "32 word \<Rightarrow> 32 word" where
  "int2int input =
     (let l = (ucast (input AND 0xffff) :: 16 word);
          r = (ucast (drop_bit 16 input) :: 16 word)
      in case int2int_loop 0 l r of
           (l', r') \<Rightarrow> push_bit 16 (ucast r') OR ucast l')"

definition charset :: "byte list" where
  "charset = map (\<lambda>c. of_nat (of_char c))
     (''ABCDEFGHIJKLMNOPQRSTUVWXYZ'' @ ''abcdefghijklmnopqrstuvwxyz'' @ ''0123456789'')"

text \<open>
  The \<open>while (len < maxlen)\<close> loop of \<open>int2alphakey\<close>, entered after \<open>maxlen--\<close>.
  \<open>i % setlen\<close> and \<open>i /= setlen\<close> are computed in \<open>size_t\<close> and fit \<open>uint32_t\<close>.
\<close>

function int2alphakey_loop :: "nat \<Rightarrow> buffer \<Rightarrow> nat \<Rightarrow> 32 word \<Rightarrow> buffer \<times> nat" where
  "int2alphakey_loop maxlen s len i =
     (if len < maxlen then
        let s' = s(len := charset ! unat (i mod 62));
            len' = len + 1;
            i' = i div 62
        in if i' = 0 then (s', len') else int2alphakey_loop maxlen s' len' i'
      else (s, len))"
  by pat_completeness auto
termination
  by (relation "measure (\<lambda>(maxlen, s, len, i). maxlen - len)") auto

declare int2alphakey_loop.simps [simp del]

definition int2alphakey :: "buffer \<Rightarrow> nat \<Rightarrow> 32 word \<Rightarrow> buffer \<times> nat" where
  "int2alphakey s maxlen i =
     (if maxlen = 0 then (s, 0)
      else case int2alphakey_loop (maxlen - 1) s 0 i of
             (s', len) \<Rightarrow> (s'(len := 0), len))"

text \<open>
  \<open>snprintf(s, maxlen, "%lu", v)\<close> of the C library: the output is the decimal digits of
  \<open>v\<close>, most significant first; at most \<open>maxlen - 1\<close> of them are stored, followed by a
  zero byte, and nothing is stored when \<open>maxlen\<close> is 0; the value returned is the length
  of the whole output, stored or not.
\<close>

function decimal :: "nat \<Rightarrow> byte list" where
  "decimal n =
     (if n < 10 then [48 + of_nat n] else decimal (n div 10) @ [48 + of_nat (n mod 10)])"
  by pat_completeness auto
termination
  by (relation "measure (\<lambda>n. n)") auto

declare decimal.simps [simp del]

fun store :: "buffer \<Rightarrow> nat \<Rightarrow> byte list \<Rightarrow> buffer" where
  "store s off [] = s"
| "store s off (c # cs) = store (s(off := c)) (Suc off) cs"

definition snprintf_lu :: "buffer \<Rightarrow> nat \<Rightarrow> nat \<Rightarrow> buffer \<times> nat" where
  "snprintf_lu s maxlen v =
     (let out = decimal v
      in (if maxlen = 0 then s else store s 0 (take (maxlen - 1) out @ [0]), length out))"

text \<open>
  \<open>rand()\<close> reads the ambient random stream: \<open>rnd\<close> is the sequence of the values it
  returns (each between 0 and \<open>RAND_MAX\<close>), and the state is the number \<open>p\<close> of calls
  made so far. The loop of the \<open>KEY_RANDOM\<close> branch stores \<open>rand() & 0xff\<close>.
\<close>

function random_fill :: "(nat \<Rightarrow> nat) \<Rightarrow> nat \<Rightarrow> buffer \<Rightarrow> nat \<Rightarrow> nat \<Rightarrow> buffer \<times> nat" where
  "random_fill rnd p s i r =
     (if i < r then random_fill rnd (p + 1) (s(i := of_nat (rnd p) AND 0xff)) (i + 1) r
      else (s, p))"
  by pat_completeness auto
termination
  by (relation "measure (\<lambda>(rnd, p, s, i, r). r - i)") auto

declare random_fill.simps [simp del]

definition KEY_INT :: int where
  "KEY_INT = 0"

definition KEY_UNIQUE_ALPHA :: int where
  "KEY_UNIQUE_ALPHA = 1"

definition KEY_RANDOM :: int where
  "KEY_RANDOM = 2"

text \<open>
  An integer division by zero is undefined in C and traps on the usual targets: the
  fault of the model. \<open>int2key\<close> returns the buffer as written, the length it reports
  and the state of the random stream.
\<close>

datatype fault = DivisionByZero

definition int2key ::
  "(nat \<Rightarrow> nat) \<Rightarrow> nat \<Rightarrow> buffer \<Rightarrow> nat \<Rightarrow> 32 word \<Rightarrow> int \<Rightarrow> fault + (buffer \<times> nat \<times> nat)" where
  "int2key rnd p s maxlen i mode =
     (if mode = KEY_INT then
        (case snprintf_lu s maxlen (unat i) of (s', n) \<Rightarrow> Inr (s', n, p))
      else if mode = KEY_UNIQUE_ALPHA then
        (case int2alphakey s maxlen (int2int i) of (s', n) \<Rightarrow> Inr (s', n, p))
      else if mode = KEY_RANDOM then
        (if maxlen = 0 then Inl DivisionByZero
         else let r = rnd p mod maxlen
              in case random_fill rnd (p + 1) s 0 r of (s', p') \<Rightarrow> Inr (s', r, p'))
      else Inr (s, 0, p))"

text \<open>
  What the caller of \<open>int2key\<close> takes as the key: the first \<open>keylen\<close> bytes of the buffer,
  \<open>keylen\<close> being the returned length converted to \<open>uint32_t\<close>; nothing after a fault.
\<close>

definition key_of :: "fault + (buffer \<times> nat \<times> nat) \<Rightarrow> byte list option" where
  "key_of res = (case res of Inl f \<Rightarrow> None | Inr (s, n, p) \<Rightarrow> Some (key_bytes s (unat (of_nat n :: 32 word))))"

text \<open>
  The base-62 digits of a number, least significant first: the reference against which
  the loop of \<open>int2alphakey\<close> is verified.
\<close>

function digits62 :: "nat \<Rightarrow> nat list" where
  "digits62 n = (n mod 62) # (if n div 62 = 0 then [] else digits62 (n div 62))"
  by pat_completeness auto
termination
  by (relation "measure (\<lambda>n. n)") auto

declare digits62.simps [simp del]

section \<open>The fuzz engine and the driver\<close>

text \<open>
  Modelled from the spec: the index under test, whose code (\<open>rax.h\<close>, \<open>rax.c\<close>) lies
  outside \<open>rax-test.c\<close>, through the interface the harness consumes: a new index,
  insertion reporting "was new", lookup, the key count, and the keys that the ordered
  iterator yields after seeking to the smallest key, until it reports exhaustion.
\<close>

record 'r rax_ops =
  raxNew :: 'r
  raxInsert :: "'r \<Rightarrow> byte list \<Rightarrow> ptr \<Rightarrow> int \<times> 'r"
  raxFind :: "'r \<Rightarrow> byte list \<Rightarrow> ptr"
  raxNumele :: "'r \<Rightarrow> 64 word"
  raxKeys :: "'r \<Rightarrow> byte list list"

text \<open>
  What the execution environment fixes: the values \<open>rand()\<close> returns, in call order; the
  indeterminate content of the bucket array that \<open>malloc\<close> hands to the \<open>htNew\<close> of each
  fuzz run; the indeterminate content of the local array \<open>key[64]\<close> at each iteration;
  the address \<open>htNotFound\<close>. Allocation is taken to succeed.
\<close>

record env =
  rand_out :: "nat \<Rightarrow> nat"
  heap_junk :: "int \<Rightarrow> nat \<Rightarrow> htNode list"
  stack_junk :: "nat \<Rightarrow> buffer"
  htNotFound :: ptr

text \<open>The lines the harness prints, and the state it threads: random stream and output.\<close>

datatype event =
    FuzzStart int
  | InsertMismatch
  | CountMismatch "64 word" "64 word"
  | Inserted "64 word"
  | ValueMismatch ptr ptr ptr
  | IterMismatch "64 word" "64 word"
  | Usage

record world =
  rand_pos :: nat
  out :: "event list"

text \<open>
  The insertion loop of \<open>fuzzTest\<close>, from iteration \<open>i\<close> on. The result tells whether
  every insertion agreed (the loop ran to its end) or one did not (\<open>return 1\<close>).
\<close>

function fuzz_populate ::
  "'r rax_ops \<Rightarrow> env \<Rightarrow> int \<Rightarrow> nat \<Rightarrow> hashtable \<Rightarrow> 'r \<Rightarrow> nat
     \<Rightarrow> fault + (bool \<times> hashtable \<times> 'r \<times> nat)" where
  "fuzz_populate ops e keymode i ht rax p =
     (if i < 1000000 then
        (case int2key (rand_out e) p (stack_junk e i) 64 (of_nat i) keymode of
           Inl f \<Rightarrow> Inl f
         | Inr (buf, n, p') \<Rightarrow>
             let keylen = unat (of_nat n :: 32 word);
                 k = key_bytes buf keylen;
                 val = (ucast (htHash k) :: ptr)
             in (case htAdd ht k val of
                   (retval1, ht') \<Rightarrow>
                     (case raxInsert ops rax k val of
                        (retval2, rax') \<Rightarrow>
                          if retval1 \<noteq> retval2 then Inr (False, ht', rax', p')
                          else fuzz_populate ops e keymode (i + 1) ht' rax' p')))
      else Inr (True, ht, rax, p))"
  by pat_completeness auto
termination
  by (relation "measure (\<lambda>(ops, e, keymode, i, ht, rax, p). 1000000 - i)") auto

declare fuzz_populate.simps [simp del]

text \<open>
  The traversal loop of \<open>fuzzTest\<close> over the keys the iterator yields: the three values
  that disagree (\<open>return 1\<close>), or the number of keys counted.
\<close>

fun fuzz_traverse ::
  "'r rax_ops \<Rightarrow> env \<Rightarrow> hashtable \<Rightarrow> 'r \<Rightarrow> byte list list \<Rightarrow> 64 word
     \<Rightarrow> (ptr \<times> ptr \<times> ptr) + 64 word" where
  "fuzz_traverse ops e ht rax [] numkeys = Inr numkeys"
| "fuzz_traverse ops e ht rax (k # ks) numkeys =
     (let expected = (ucast (htHash k) :: ptr);
          val1 = htFind (htNotFound e) ht k;
          val2 = raxFind ops rax k
      in if val1 \<noteq> val2 \<or> val1 \<noteq> expected then Inl (val1, val2, expected)
         else fuzz_traverse ops e ht rax ks (numkeys + 1))"

definition fuzzTest :: "'r rax_ops \<Rightarrow> env \<Rightarrow> int \<Rightarrow> world \<Rightarrow> fault + (int \<times> world)" where
  "fuzzTest ops e keymode w =
     (let ht = htNew (heap_junk e keymode);
          rax = raxNew ops;
          o1 = out w @ [FuzzStart keymode]
      in case fuzz_populate ops e keymode 0 ht rax (rand_pos w) of
           Inl f \<Rightarrow> Inl f
         | Inr (agreed, ht, rax, p) \<Rightarrow>
             if \<not> agreed then Inr (1, \<lparr>rand_pos = p, out = o1 @ [InsertMismatch]\<rparr>)
             else if numele ht \<noteq> raxNumele ops rax
               then Inr (1, \<lparr>rand_pos = p,
                              out = o1 @ [CountMismatch (numele ht) (raxNumele ops rax)]\<rparr>)
             else
               let o2 = o1 @ [Inserted (numele ht)]
               in case fuzz_traverse ops e ht rax (raxKeys ops rax) 0 of
                    Inl (val1, val2, expected) \<Rightarrow>
                      Inr (1, \<lparr>rand_pos = p, out = o2 @ [ValueMismatch val1 val2 expected]\<rparr>)
                  | Inr numkeys \<Rightarrow>
                      if numele ht \<noteq> numkeys
                        then Inr (1, \<lparr>rand_pos = p,
                                       out = o2 @ [IterMismatch numkeys (numele ht)]\<rparr>)
                      else Inr (0, \<lparr>rand_pos = p, out = o2\<rparr>))"

text \<open>
  The argument loop of \<open>main\<close> over \<open>argv[1..]\<close>, on the flags (\<open>do_benchmark\<close>,
  \<open>do_units\<close>, \<open>do_fuzz\<close>); \<open>None\<close> is the usage error, which ends in \<open>exit(1)\<close>.
\<close>

fun parse_args :: "string list \<Rightarrow> bool \<times> bool \<times> bool \<Rightarrow> (bool \<times> bool \<times> bool) option" where
  "parse_args [] flags = Some flags"
| "parse_args (a # as) (do_benchmark, do_units, do_fuzz) =
     (if a = ''--bench'' then parse_args as (True, do_units, do_fuzz)
      else if a = ''--fuzz'' then parse_args as (do_benchmark, do_units, True)
      else if a = ''--units'' then parse_args as (do_benchmark, True, do_fuzz)
      else None)"

text \<open>One line \<open>if (fuzzTest(mode)) errors++;\<close> of \<open>main\<close>.\<close>

definition run_fuzz ::
  "'r rax_ops \<Rightarrow> env \<Rightarrow> int \<Rightarrow> int \<times> world \<Rightarrow> fault + (int \<times> world)" where
  "run_fuzz ops e keymode ew =
     (case ew of (errors, w) \<Rightarrow>
        (case fuzzTest ops e keymode w of
           Inl f \<Rightarrow> Inl f
         | Inr (r, w') \<Rightarrow> Inr (if r \<noteq> 0 then errors + 1 else errors, w')))"

text \<open>\<open>main\<close>: the exit status and the final state, \<open>argv\<close> with the program name first.\<close>

definition main :: "'r rax_ops \<Rightarrow> env \<Rightarrow> string list \<Rightarrow> world \<Rightarrow> fault + (int \<times> world)" where
  "main ops e argv w =
     (case (if length argv > 1 then parse_args (tl argv) (False, False, False)
            else Some (False, True, True)) of
        None \<Rightarrow> Inr (1, w\<lparr>out := out w @ [Usage]\<rparr>)
      | Some (do_benchmark, do_units, do_fuzz) \<Rightarrow>
          if do_fuzz then
            (case run_fuzz ops e KEY_INT (0, w) of
               Inl f \<Rightarrow> Inl f
             | Inr ew1 \<Rightarrow>
                 (case run_fuzz ops e KEY_UNIQUE_ALPHA ew1 of
                    Inl f \<Rightarrow> Inl f
                  | Inr ew2 \<Rightarrow> run_fuzz ops e KEY_RANDOM ew2))
          else Inr (0, w))"



section \<open>The hash function\<close>

lemma unat_ucast_byte: "unat (ucast (c :: byte) :: 32 word) = unat c"
  by (simp add: unsigned_ucast_eq take_bit_nat_eq_self_iff)
    (use unsigned_less [of c, where ?'a = nat] in simp)

lemma djb2_loop_refines:
  "unat (djb2_loop h s) = djb2_spec (unat h) (map unat s)"
proof (induction s arbitrary: h)
  case Nil
  show ?case by simp
next
  case (Cons c s)
  have "unat (h * 33 + (ucast c :: 32 word)) = (unat h * 33 + unat c) mod 2 ^ 32"
    by (simp add: unat_word_ariths mod_simps unat_ucast_byte)
  with Cons show ?case by simp
qed

lemma htHash_lt: "unat (htHash s) < 100000"
proof -
  have "htHash s < 100000"
    unfolding htHash_def by (rule word_mod_less_divisor) simp
  then show ?thesis by (simp add: word_less_nat_alt)
qed

text \<open>
  C6. For every key, \<open>htHash\<close> is the djb2 hash (seed 5381, \<open>hash * 33 + byte\<close> wrapping
  modulo \<open>2^32\<close>, bytes in order) reduced modulo the bucket count 100000, and the result
  is below 100000. The empty key hashes to 5381.
\<close>

theorem htHash_is_djb2:
  "unat (htHash s) = hash_spec (map unat s) \<and> unat (htHash s) < HT_TABLE_SIZE
   \<and> unat (htHash []) = 5381"
proof -
  have "unat (htHash s) = unat (djb2_loop 5381 s) mod 100000"
    by (simp add: htHash_def unat_mod)
  then have "unat (htHash s) = hash_spec (map unat s)"
    by (simp add: hash_spec_def djb2_loop_refines)
  moreover have "unat (htHash []) = 5381"
    by (simp add: htHash_def)
  ultimately show ?thesis
    using htHash_lt [of s] by (simp add: HT_TABLE_SIZE_def)
qed

section \<open>Lookup in a chain\<close>

lemma compare_bytes_eq_iff: "length a = length b \<Longrightarrow> compare_bytes a b = 0 \<longleftrightarrow> a = b"
  by (induction a b rule: list_induct2) auto

lemma memcmp_eq_iff:
  "length a = n \<Longrightarrow> length b = n \<Longrightarrow> memcmp a b n = 0 \<longleftrightarrow> a = b"
  by (simp add: memcmp_def compare_bytes_eq_iff)

lemma chain_lookup_Cons:
  "chain_lookup (n # ns) s =
     (if key n = s then Some 0 else map_option Suc (chain_lookup ns s))"
  using memcmp_eq_iff [of "key n" "length s" s] by auto

lemma chain_lookup_None_iff: "chain_lookup c s = None \<longleftrightarrow> s \<notin> key ` set c"
  by (induction c) (auto simp: chain_lookup_Cons simp del: chain_lookup.simps(2))

lemma chain_lookup_SomeD:
  "chain_lookup c s = Some k \<Longrightarrow> k < length c \<and> key (c ! k) = s \<and> s \<notin> key ` set (take k c)"
proof (induction c arbitrary: k)
  case Nil
  then show ?case by simp
next
  case (Cons n ns)
  then show ?case
    by (auto simp: chain_lookup_Cons simp del: chain_lookup.simps(2) split: if_splits)
qed

lemma chain_lookup_update:
  "chain_lookup c s = Some k \<Longrightarrow> chain_lookup (c[k := (c ! k)\<lparr>data := d\<rparr>]) s = Some k"
proof (induction c arbitrary: k)
  case Nil
  then show ?case by simp
next
  case (Cons n ns)
  then show ?case
    by (auto simp: chain_lookup_Cons simp del: chain_lookup.simps(2) split: if_splits)
qed

lemma map_key_update: "map key (c[k := (c ! k)\<lparr>data := d\<rparr>]) = map key c"
  by (cases "k < length c") (simp_all add: map_update list_update_same_conv list_update_beyond)

lemma htRawLookup_eq: "htRawLookup t s = (htHash s, chain_lookup (table t (unat (htHash s))) s)"
  by (simp add: htRawLookup_def Let_def)

lemma htAdd_new:
  assumes "s \<notin> key ` set (table t (unat (htHash s)))"
  shows "htAdd t s d =
    (1, t\<lparr>table := (table t)(unat (htHash s) := \<lparr>key = s, data = d\<rparr> # table t (unat (htHash s))),
          numele := numele t + 1\<rparr>)"
  using assms by (simp add: htAdd_def htRawLookup_eq chain_lookup_None_iff [symmetric])

lemma htAdd_existing:
  assumes "s \<in> key ` set (table t (unat (htHash s)))"
  shows "\<exists>k < length (table t (unat (htHash s))).
           key (table t (unat (htHash s)) ! k) = s \<and>
           s \<notin> key ` set (take k (table t (unat (htHash s)))) \<and>
           htAdd t s d =
             (0, t\<lparr>table := (table t)(unat (htHash s) :=
                    (table t (unat (htHash s)))[k := \<lparr>key = s, data = d\<rparr>])\<rparr>)"
proof -
  let ?c = "table t (unat (htHash s))"
  from assms obtain k where k: "chain_lookup ?c s = Some k"
    using chain_lookup_None_iff [of ?c s] by auto
  from chain_lookup_SomeD [OF k] have *: "k < length ?c" "key (?c ! k) = s"
    "s \<notin> key ` set (take k ?c)" by auto
  have "(?c ! k)\<lparr>data := d\<rparr> = \<lparr>key = s, data = d\<rparr>"
    using *(2) by (cases "?c ! k") auto
  then have "htAdd t s d = (0, t\<lparr>table := (table t)(unat (htHash s) := ?c[k := \<lparr>key = s, data = d\<rparr>])\<rparr>)"
    by (simp add: htAdd_def htRawLookup_eq k)
  with * show ?thesis by blast
qed

lemma htFind_htAdd: "htFind nf (snd (htAdd t s d)) s = d"
proof (cases "chain_lookup (table t (unat (htHash s))) s")
  case None
  then show ?thesis
    by (simp add: htAdd_def htFind_def htRawLookup_eq chain_lookup_Cons del: chain_lookup.simps(2))
next
  case (Some k)
  from chain_lookup_SomeD [OF Some] have "k < length (table t (unat (htHash s)))" by simp
  then show ?thesis
    using chain_lookup_update [OF Some, of d]
    by (simp add: htAdd_def htFind_def htRawLookup_eq Some)
qed

lemma htFind_absent:
  "s \<notin> key ` set (table t (unat (htHash s))) \<Longrightarrow> htFind nf t s = nf"
  by (simp add: htFind_def htRawLookup_eq chain_lookup_None_iff [symmetric])

lemma htAdd_twice:
  assumes "s \<notin> key ` set (table t (unat (htHash s)))"
  shows "fst (htAdd t s d1) = 1 \<and> fst (htAdd (snd (htAdd t s d1)) s d2) = 0 \<and>
         htFind nf (snd (htAdd (snd (htAdd t s d1)) s d2)) s = d2 \<and>
         numele (snd (htAdd (snd (htAdd t s d1)) s d2)) = numele t + 1"
proof -
  let ?t1 = "snd (htAdd t s d1)"
  have t1: "htAdd t s d1 = (1, t\<lparr>table := (table t)(unat (htHash s) := \<lparr>key = s, data = d1\<rparr> # table t (unat (htHash s))),
          numele := numele t + 1\<rparr>)"
    by (rule htAdd_new [OF assms])
  have "chain_lookup (table ?t1 (unat (htHash s))) s = Some 0"
    by (simp add: t1 chain_lookup_Cons del: chain_lookup.simps(2))
  then have "htAdd ?t1 s d2 = (0, ?t1\<lparr>table := (table ?t1)(unat (htHash s) :=
                 (table ?t1 (unat (htHash s)))[0 := (table ?t1 (unat (htHash s)) ! 0)\<lparr>data := d2\<rparr>])\<rparr>)"
    by (simp add: htAdd_def htRawLookup_eq)
  then have "fst (htAdd ?t1 s d2) = 0" "numele (snd (htAdd ?t1 s d2)) = numele t + 1"
    by (simp_all add: t1)
  then show ?thesis using htFind_htAdd [of nf ?t1 s d2] by (simp add: t1)
qed

section \<open>Removal and the table invariant\<close>

lemma htRem_absent:
  "s \<notin> key ` set (table t (unat (htHash s))) \<Longrightarrow> htRem t s = (0, t)"
  by (simp add: htRem_def htRawLookup_eq chain_lookup_None_iff [symmetric])

lemma htRem_present:
  assumes "s \<in> key ` set (table t (unat (htHash s)))"
  shows "\<exists>k < length (table t (unat (htHash s))).
           key (table t (unat (htHash s)) ! k) = s \<and>
           s \<notin> key ` set (take k (table t (unat (htHash s)))) \<and>
           htRem t s =
             (1, t\<lparr>table := (table t)(unat (htHash s) :=
                    take k (table t (unat (htHash s))) @ drop (Suc k) (table t (unat (htHash s))))\<rparr>)"
proof -
  let ?c = "table t (unat (htHash s))"
  from assms obtain k where k: "chain_lookup ?c s = Some k"
    using chain_lookup_None_iff [of ?c s] by auto
  from chain_lookup_SomeD [OF k] have *: "k < length ?c" "key (?c ! k) = s"
    "s \<notin> key ` set (take k ?c)" by auto
  have "htRem t s = (1, t\<lparr>table := (table t)(unat (htHash s) := take k ?c @ drop (Suc k) ?c)\<rparr>)"
    by (simp add: htRem_def htRawLookup_eq k)
  with * show ?thesis by blast
qed

lemma htRem_numele: "numele (snd (htRem t s)) = numele t"
  by (simp add: htRem_def htRawLookup_eq split: option.split)

lemma htRem_bucket:
  "table (snd (htRem t s)) h = table t h \<or>
   (\<exists>k. table (snd (htRem t s)) h = take k (table t h) @ drop (Suc k) (table t h))"
proof (cases "chain_lookup (table t (unat (htHash s))) s")
  case None
  then show ?thesis by (simp add: htRem_def htRawLookup_eq)
next
  case (Some k)
  show ?thesis
  proof (cases "h = unat (htHash s)")
    case True
    then have "table (snd (htRem t s)) h = take k (table t h) @ drop (Suc k) (table t h)"
      by (simp add: htRem_def htRawLookup_eq Some)
    then show ?thesis by blast
  next
    case False
    then show ?thesis by (simp add: htRem_def htRawLookup_eq Some)
  qed
qed

lemma set_unlink_subset: "set (take k c @ drop (Suc k) c) \<subseteq> set c"
  using set_take_subset [of k c] set_drop_subset [of "Suc k" c] by simp

lemma distinct_unlink:
  assumes "distinct (map f c)"
  shows "distinct (map f (take k c @ drop (Suc k) c))"
proof -
  have eq: "map f (take k c @ drop (Suc k) c) = take k (map f c) @ drop (Suc k) (map f c)"
    by (simp add: take_map drop_map)
  have "set (take k (map f c)) \<inter> set (drop (Suc k) (map f c)) = {}"
    by (rule set_take_disj_set_drop_if_distinct [OF assms]) simp
  with assms show ?thesis unfolding eq by simp
qed

lemma htRem_table_subset: "set (table (snd (htRem t s)) h) \<subseteq> set (table t h)"
  using htRem_bucket [of t s h] by (auto dest: in_set_takeD in_set_dropD)

lemma htRem_distinct:
  "distinct (map key (table t h)) \<Longrightarrow> distinct (map key (table (snd (htRem t s)) h))"
  using htRem_bucket [of t s h] distinct_unlink [of key "table t h"] by auto

lemma htRem_no_dup_keys:
  assumes "no_dup_keys t"
  shows "no_dup_keys (snd (htRem t s))"
proof -
  let ?t' = "snd (htRem t s)"
  have d: "distinct (map key (table ?t' h))" if "h < HT_TABLE_SIZE" for h
    using assms that by (simp add: no_dup_keys_def htRem_distinct)
  have "key ` set (table ?t' h) \<inter> key ` set (table ?t' h') = {}"
    if "h < HT_TABLE_SIZE" "h' < HT_TABLE_SIZE" "h \<noteq> h'" for h h'
  proof -
    have "key ` set (table t h) \<inter> key ` set (table t h') = {}"
      using assms that by (simp add: no_dup_keys_def)
    then show ?thesis
      using htRem_table_subset [of t s h] htRem_table_subset [of t s h'] by blast
  qed
  with d show ?thesis by (simp add: no_dup_keys_def)
qed

lemma htRem_in_own_bucket:
  assumes "in_own_bucket t"
  shows "in_own_bucket (snd (htRem t s))"
  using assms htRem_table_subset [of t s] unfolding in_own_bucket_def by blast

lemma htAdd_keys:
  "map key (table (snd (htAdd t s d)) h) = map key (table t h) \<or>
   (h = unat (htHash s) \<and> s \<notin> key ` set (table t h) \<and>
    map key (table (snd (htAdd t s d)) h) = s # map key (table t h))"
proof (cases "chain_lookup (table t (unat (htHash s))) s")
  case None
  then have "s \<notin> key ` set (table t (unat (htHash s)))"
    by (simp add: chain_lookup_None_iff)
  then show ?thesis
    by (cases "h = unat (htHash s)") (simp_all add: htAdd_def htRawLookup_eq None)
next
  case (Some k)
  then show ?thesis
    by (cases "h = unat (htHash s)") (simp_all add: htAdd_def htRawLookup_eq map_key_update)
qed

lemma htAdd_in_own_bucket:
  assumes "in_own_bucket t"
  shows "in_own_bucket (snd (htAdd t s d))"
proof -
  have "unat (htHash k) = h"
    if "h < HT_TABLE_SIZE" "k \<in> set (map key (table (snd (htAdd t s d)) h))" for h k
  proof -
    have old: "k \<in> set (map key (table t h)) \<Longrightarrow> unat (htHash k) = h"
      using assms that(1) unfolding in_own_bucket_def by auto
    from htAdd_keys [of t s d h] show ?thesis
    proof
      assume "map key (table (snd (htAdd t s d)) h) = map key (table t h)"
      with that(2) old show ?thesis by simp
    next
      assume *: "h = unat (htHash s) \<and> s \<notin> key ` set (table t h) \<and>
        map key (table (snd (htAdd t s d)) h) = s # map key (table t h)"
      then have "map key (table (snd (htAdd t s d)) h) = s # map key (table t h)" by blast
      with that(2) have "k \<in> set (s # map key (table t h))" by (simp only:)
      then have "k = s \<or> k \<in> set (map key (table t h))" by (simp only: set_ConsD set_simps insert_iff)
      with * old show ?thesis by blast
    qed
  qed
  then show ?thesis unfolding in_own_bucket_def by simp
qed

lemma own_bucket_disjoint:
  assumes "in_own_bucket t" "h < HT_TABLE_SIZE" "h' < HT_TABLE_SIZE" "h \<noteq> h'"
  shows "key ` set (table t h) \<inter> key ` set (table t h') = {}"
proof (rule ccontr)
  assume "key ` set (table t h) \<inter> key ` set (table t h') \<noteq> {}"
  then obtain n n' where "n \<in> set (table t h)" "n' \<in> set (table t h')" "key n = key n'"
    by auto
  with assms(1-3) have "h = h'" unfolding in_own_bucket_def by metis
  with assms(4) show False by simp
qed

lemma htAdd_no_dup_keys:
  assumes "no_dup_keys t" "in_own_bucket t"
  shows "no_dup_keys (snd (htAdd t s d))"
proof -
  let ?t' = "snd (htAdd t s d)"
  have "distinct (map key (table ?t' h))" if "h < HT_TABLE_SIZE" for h
  proof -
    have "distinct (map key (table t h))"
      using assms(1) that by (simp add: no_dup_keys_def)
    with htAdd_keys [of t s d h] show ?thesis by auto
  qed
  moreover have "in_own_bucket ?t'" by (rule htAdd_in_own_bucket [OF assms(2)])
  ultimately show ?thesis
    using own_bucket_disjoint [of ?t'] by (simp add: no_dup_keys_def)
qed

section \<open>The claims about the table\<close>

lemma present_iff_in_own_bucket:
  assumes "in_own_bucket t"
  shows "(\<exists>h < HT_TABLE_SIZE. s \<in> key ` set (table t h)) \<longleftrightarrow>
         s \<in> key ` set (table t (unat (htHash s)))"
proof
  assume "\<exists>h < HT_TABLE_SIZE. s \<in> key ` set (table t h)"
  then obtain h n where "h < HT_TABLE_SIZE" "n \<in> set (table t h)" "key n = s" by auto
  with assms have "unat (htHash s) = h" unfolding in_own_bucket_def by auto
  with \<open>n \<in> set (table t h)\<close> \<open>key n = s\<close> show "s \<in> key ` set (table t (unat (htHash s)))"
    by auto
next
  assume "s \<in> key ` set (table t (unat (htHash s)))"
  then show "\<exists>h < HT_TABLE_SIZE. s \<in> key ` set (table t h)"
    using htHash_lt [of s] by (auto simp: HT_TABLE_SIZE_def)
qed

lemma empty_table_invariant:
  "no_dup_keys (htNew (\<lambda>_. [])) \<and> in_own_bucket (htNew (\<lambda>_. []))"
  by (simp add: no_dup_keys_def in_own_bucket_def htNew_def)

text \<open>
  What \<open>htAdd\<close> does in any table, in terms of the chain of the key's bucket, the only one
  it searches: when an entry with the same key (same length, same bytes) is in that chain,
  it overwrites the value of that entry (the first one in the chain) where it stands,
  returns 0 and leaves \<open>numele\<close> as it was; when there is none, it links a node holding
  the bytes of the key and the value at the head of the chain, adds one to \<open>numele\<close> and
  returns 1. In both cases a following \<open>htFind\<close> of the key returns the value.
  (\<open>numele\<close> is a \<open>uint64_t\<close>, and the addition is that of 64-bit words. The node holds
  the key by value, as the copy made by \<open>malloc\<close> and \<open>memcpy\<close> does.)
\<close>

lemma htAdd_by_bucket:
  "(s \<in> key ` set (table t (unat (htHash s))) \<longrightarrow>
      (\<exists>k < length (table t (unat (htHash s))).
          key (table t (unat (htHash s)) ! k) = s \<and>
          s \<notin> key ` set (take k (table t (unat (htHash s)))) \<and>
          htAdd t s d =
            (0, t\<lparr>table := (table t)(unat (htHash s) :=
                   (table t (unat (htHash s)))[k := \<lparr>key = s, data = d\<rparr>])\<rparr>)) \<and>
      fst (htAdd t s d) = 0 \<and> numele (snd (htAdd t s d)) = numele t) \<and>
   (s \<notin> key ` set (table t (unat (htHash s))) \<longrightarrow>
      htAdd t s d =
        (1, t\<lparr>table := (table t)(unat (htHash s) :=
               \<lparr>key = s, data = d\<rparr> # table t (unat (htHash s))),
              numele := numele t + 1\<rparr>) \<and>
      fst (htAdd (snd (htAdd t s 10)) s 20) = 0 \<and>
      htFind nf (snd (htAdd (snd (htAdd t s 10)) s 20)) s = 20 \<and>
      numele (snd (htAdd (snd (htAdd t s 10)) s 20)) = numele t + 1) \<and>
   htFind nf (snd (htAdd t s d)) s = d \<and>
   fst (htAdd (htNew (\<lambda>_. [])) s 10) = 1 \<and>
   fst (htAdd (snd (htAdd (htNew (\<lambda>_. [])) s 10)) s 20) = 0 \<and>
   htFind nf (snd (htAdd (snd (htAdd (htNew (\<lambda>_. [])) s 10)) s 20)) s = 20 \<and>
   numele (snd (htAdd (snd (htAdd (htNew (\<lambda>_. [])) s 10)) s 20)) = 1"
proof -
  let ?c = "table t (unat (htHash s))"
  have old: "(\<exists>k < length ?c. key (?c ! k) = s \<and> s \<notin> key ` set (take k ?c) \<and>
          htAdd t s d = (0, t\<lparr>table := (table t)(unat (htHash s) := ?c[k := \<lparr>key = s, data = d\<rparr>])\<rparr>)) \<and>
      fst (htAdd t s d) = 0 \<and> numele (snd (htAdd t s d)) = numele t"
    if "s \<in> key ` set ?c"
  proof -
    from htAdd_existing [OF that, of d] obtain k where k: "k < length ?c" "key (?c ! k) = s"
      "s \<notin> key ` set (take k ?c)"
      "htAdd t s d = (0, t\<lparr>table := (table t)(unat (htHash s) := ?c[k := \<lparr>key = s, data = d\<rparr>])\<rparr>)"
      by blast
    from k(4) have "fst (htAdd t s d) = 0" "numele (snd (htAdd t s d)) = numele t" by simp_all
    with k show ?thesis by blast
  qed
  have new: "htAdd t s d =
        (1, t\<lparr>table := (table t)(unat (htHash s) := \<lparr>key = s, data = d\<rparr> # ?c),
              numele := numele t + 1\<rparr>) \<and>
      fst (htAdd (snd (htAdd t s 10)) s 20) = 0 \<and>
      htFind nf (snd (htAdd (snd (htAdd t s 10)) s 20)) s = 20 \<and>
      numele (snd (htAdd (snd (htAdd t s 10)) s 20)) = numele t + 1"
    if "s \<notin> key ` set ?c"
    using htAdd_new [OF that, of d] htAdd_twice [OF that, of 10 20 nf] by simp
  have "s \<notin> key ` set (table (htNew (\<lambda>_. [])) (unat (htHash s)))"
    by (simp add: htNew_def)
  from htAdd_twice [OF this, of 10 20 nf]
  have fresh: "fst (htAdd (htNew (\<lambda>_. [])) s 10) = 1"
    "fst (htAdd (snd (htAdd (htNew (\<lambda>_. [])) s 10)) s 20) = 0"
    "htFind nf (snd (htAdd (snd (htAdd (htNew (\<lambda>_. [])) s 10)) s 20)) s = 20"
    "numele (snd (htAdd (snd (htAdd (htNew (\<lambda>_. [])) s 10)) s 20)) = 1"
    by (simp_all add: htNew_def)
  from old new fresh htFind_htAdd [of nf t s d] show ?thesis by blast
qed

lemma sample_hashes:
  "unat (htHash [97, 100]) = 63210" "unat (htHash [98, 67]) = 63210"
  "unat (htHash [97]) = 77670" "unat (htHash [99]) = 77672"
  by (simp_all add: htHash_def)

lemma sample_table_built:
  "sample_table =
     snd (htAdd (snd (htAdd (snd (htAdd (htNew (\<lambda>_. [])) [97, 100] 1)) [98, 67] 2)) [97] 3)"
  by (simp add: sample_table_def htAdd_def htRawLookup_eq htNew_def sample_hashes memcmp_def)

lemma sample_table_invariant: "no_dup_keys sample_table \<and> in_own_bucket sample_table"
  by (auto simp: sample_table_def no_dup_keys_def in_own_bucket_def sample_hashes
      split: if_splits)

text \<open>
  C3, as stated for every table state, fails: an entry with the key can be present in a
  chain other than the one the key hashes to. Here an entry for the empty key, which
  hashes to 5381, sits in bucket 0; \<open>htAdd\<close> of the empty key with the value 7 returns 1,
  raises the count to 2, leaves that entry with its value 0 and links a second entry in
  bucket 5381.
\<close>

theorem htAdd_misses_misplaced_entry:
  "[] \<in> key ` set (table \<lparr>numele = 1, table = (\<lambda>_. [])(0 := [\<lparr>key = [], data = 0\<rparr>])\<rparr> 0) \<and>
   fst (htAdd \<lparr>numele = 1, table = (\<lambda>_. [])(0 := [\<lparr>key = [], data = 0\<rparr>])\<rparr> [] 7) = 1 \<and>
   numele (snd (htAdd \<lparr>numele = 1, table = (\<lambda>_. [])(0 := [\<lparr>key = [], data = 0\<rparr>])\<rparr> [] 7)) = 2 \<and>
   table (snd (htAdd \<lparr>numele = 1, table = (\<lambda>_. [])(0 := [\<lparr>key = [], data = 0\<rparr>])\<rparr> [] 7)) 0 =
     [\<lparr>key = [], data = 0\<rparr>] \<and>
   table (snd (htAdd \<lparr>numele = 1, table = (\<lambda>_. [])(0 := [\<lparr>key = [], data = 0\<rparr>])\<rparr> [] 7)) 5381 =
     [\<lparr>key = [], data = 7\<rparr>]"
proof -
  have h: "unat (htHash []) = 5381" by (simp add: htHash_def)
  show ?thesis by (simp add: htAdd_def htRawLookup_eq h)
qed

text \<open>
  C3, amended. In every table where each entry is chained in the bucket its key hashes
  to (the empty table, and every table built from it by \<open>htAdd\<close> and \<open>htRem\<close>): when an
  entry with the same key is present in the table, \<open>htAdd\<close> overwrites the value of that
  entry where it stands, returns 0 and leaves \<open>numele\<close> as it was; when none is present,
  it links a node holding the bytes of the key and the value at the head of the chain of
  the key's bucket, adds one to \<open>numele\<close> and returns 1. The table that results is again
  of that kind, and a following \<open>htFind\<close> of the key returns the value. Adding a key
  twice, with 10 and then 20, to a table that lacks it returns 1 and then 0, the lookup
  returns 20 and the count has grown by one: on the empty table it is 1.
\<close>

theorem htAdd_insert_or_replace:
  assumes "in_own_bucket t"
  shows
  "((\<exists>h < HT_TABLE_SIZE. s \<in> key ` set (table t h)) \<longrightarrow>
      (\<exists>k < length (table t (unat (htHash s))).
          key (table t (unat (htHash s)) ! k) = s \<and>
          s \<notin> key ` set (take k (table t (unat (htHash s)))) \<and>
          htAdd t s d =
            (0, t\<lparr>table := (table t)(unat (htHash s) :=
                   (table t (unat (htHash s)))[k := \<lparr>key = s, data = d\<rparr>])\<rparr>)) \<and>
      fst (htAdd t s d) = 0 \<and> numele (snd (htAdd t s d)) = numele t) \<and>
   (\<not> (\<exists>h < HT_TABLE_SIZE. s \<in> key ` set (table t h)) \<longrightarrow>
      htAdd t s d =
        (1, t\<lparr>table := (table t)(unat (htHash s) :=
               \<lparr>key = s, data = d\<rparr> # table t (unat (htHash s))),
              numele := numele t + 1\<rparr>) \<and>
      fst (htAdd (snd (htAdd t s 10)) s 20) = 0 \<and>
      htFind nf (snd (htAdd (snd (htAdd t s 10)) s 20)) s = 20 \<and>
      numele (snd (htAdd (snd (htAdd t s 10)) s 20)) = numele t + 1) \<and>
   htFind nf (snd (htAdd t s d)) s = d \<and>
   in_own_bucket (snd (htAdd t s d)) \<and>
   fst (htAdd (htNew (\<lambda>_. [])) s 10) = 1 \<and>
   fst (htAdd (snd (htAdd (htNew (\<lambda>_. [])) s 10)) s 20) = 0 \<and>
   htFind nf (snd (htAdd (snd (htAdd (htNew (\<lambda>_. [])) s 10)) s 20)) s = 20 \<and>
   numele (snd (htAdd (snd (htAdd (htNew (\<lambda>_. [])) s 10)) s 20)) = 1"
  using htAdd_by_bucket [of s t d nf] present_iff_in_own_bucket [OF assms, of s]
    htAdd_in_own_bucket [OF assms, of s d]
  by (simp only:) blast

text \<open>
  Witness for C3, on the table with three entries: \<open>htAdd\<close> of \<open>"ad"\<close>, the second entry of
  its chain, overwrites the value there and leaves the count at 3; \<open>htAdd\<close> of the absent
  key \<open>"c"\<close> links an entry in the empty bucket 77672 and raises the count to 4.
\<close>

theorem htAdd_insert_or_replace_witness:
  "in_own_bucket sample_table \<and>
   (\<exists>k < 2. key (table sample_table 63210 ! k) = [97, 100] \<and>
      [97, 100] \<notin> key ` set (take k (table sample_table 63210)) \<and>
      htAdd sample_table [97, 100] 9 =
        (0, sample_table\<lparr>table := (table sample_table)(63210 :=
              (table sample_table 63210)[k := \<lparr>key = [97, 100], data = 9\<rparr>])\<rparr>)) \<and>
   numele (snd (htAdd sample_table [97, 100] 9)) = 3 \<and>
   htFind 0 (snd (htAdd sample_table [97, 100] 9)) [97, 100] = 9 \<and>
   htAdd sample_table [99] 4 =
     (1, sample_table\<lparr>table := (table sample_table)(77672 := [\<lparr>key = [99], data = 4\<rparr>]),
                      numele := 4\<rparr>)"
proof -
  note inv = sample_table_invariant [THEN conjunct2]
  have len: "length (table sample_table 63210) = 2" "table sample_table 77672 = []"
    "numele sample_table = 3"
    by (simp_all add: sample_table_def)
  have present: "\<exists>h < HT_TABLE_SIZE. [97, 100] \<in> key ` set (table sample_table h)"
    by (rule exI [of _ 63210]) (simp add: sample_table_def HT_TABLE_SIZE_def)
  have absent: "\<not> (\<exists>h < HT_TABLE_SIZE. [99] \<in> key ` set (table sample_table h))"
    by (auto simp: sample_table_def split: if_splits)
  from htAdd_insert_or_replace [OF inv, of "[97, 100]" 9 0] present
  have 1: "(\<exists>k < 2. key (table sample_table 63210 ! k) = [97, 100] \<and>
      [97, 100] \<notin> key ` set (take k (table sample_table 63210)) \<and>
      htAdd sample_table [97, 100] 9 =
        (0, sample_table\<lparr>table := (table sample_table)(63210 :=
              (table sample_table 63210)[k := \<lparr>key = [97, 100], data = 9\<rparr>])\<rparr>))"
    "numele (snd (htAdd sample_table [97, 100] 9)) = 3"
    "htFind 0 (snd (htAdd sample_table [97, 100] 9)) [97, 100] = 9"
    by (simp_all only: sample_hashes len)
  from htAdd_insert_or_replace [OF inv, of "[99]" 4 0] absent
  have 2: "htAdd sample_table [99] 4 =
     (1, sample_table\<lparr>table := (table sample_table)(77672 := [\<lparr>key = [99], data = 4\<rparr>]),
                      numele := 4\<rparr>)"
    by (simp add: sample_hashes len)
  from inv 1 2 show ?thesis by blast
qed

text \<open>
  C1. \<open>htRem\<close> looks the key up as \<open>htFind\<close> does (\<open>htRem_present\<close>, \<open>htRem_absent\<close>:
  a found entry is unlinked and 1 returned; without one the table is returned as it was,
  with 0). It never assigns \<open>numele\<close>: after adding the key \<open>"a"\<close> to the empty table and
  removing it, 1 is returned, the chain is empty and the counter is still 1.
\<close>

theorem htRem_leaves_numele:
  "numele (snd (htRem t s)) = numele t \<and>
   numele (snd (htAdd (htNew (\<lambda>_. [])) [97] 1)) = 1 \<and>
   fst (htRem (snd (htAdd (htNew (\<lambda>_. [])) [97] 1)) [97]) = 1 \<and>
   table (snd (htRem (snd (htAdd (htNew (\<lambda>_. [])) [97] 1)) [97])) (unat (htHash [97])) = [] \<and>
   numele (snd (htRem (snd (htAdd (htNew (\<lambda>_. [])) [97] 1)) [97])) = 1"
proof -
  have h: "unat (htHash [97]) = 77670" by (simp add: htHash_def)
  have 1: "htAdd (htNew (\<lambda>_. [])) [97] 1 =
     (1, \<lparr>numele = 1, table = (\<lambda>_. [])(77670 := [\<lparr>key = [97], data = 1\<rparr>])\<rparr>)"
    by (simp add: htAdd_def htRawLookup_eq htNew_def h)
  have 2: "htRem \<lparr>numele = 1, table = (\<lambda>_. [])(77670 := [\<lparr>key = [97], data = 1\<rparr>])\<rparr> [97] =
     (1, \<lparr>numele = 1, table = (\<lambda>_. [])(77670 := [])\<rparr>)"
    by (simp add: htRem_def htRawLookup_eq h memcmp_def)
  show ?thesis by (simp add: htRem_numele 1 2 h)
qed

text \<open>
  C2. \<open>htNew\<close> sets the counter to zero and leaves the buckets as the allocated memory
  was. When that memory is all zero, \<open>htFind\<close> returns the sentinel for every key; when
  slot 5381 holds a chain with an entry for the empty key, \<open>htFind\<close> on the new table
  returns that entry's value.
\<close>

theorem htNew_leaves_buckets:
  "numele (htNew mem) = 0 \<and> table (htNew mem) = mem \<and>
   htFind nf (htNew (\<lambda>_. [])) s = nf \<and>
   htFind 0 (htNew (\<lambda>_. [\<lparr>key = [], data = 7\<rparr>])) [] = 7"
  by (simp add: htNew_def htFind_def htRawLookup_eq memcmp_def)

text \<open>
  C5, as stated, fails: a table can satisfy the invariant with an entry chained in a
  bucket other than the one its key hashes to. Here the empty key, which hashes to 5381,
  sits in bucket 0; \<open>htAdd\<close> of the empty key searches bucket 5381 only and links a second
  entry with that key.
\<close>

theorem htAdd_breaks_no_dup_keys:
  "no_dup_keys \<lparr>numele = 1, table = (\<lambda>h. if h = 0 then [\<lparr>key = [], data = 0\<rparr>] else [])\<rparr> \<and>
   \<not> no_dup_keys (snd (htAdd
       \<lparr>numele = 1, table = (\<lambda>h. if h = 0 then [\<lparr>key = [], data = 0\<rparr>] else [])\<rparr> [] 0))"
proof -
  let ?t0 = "\<lparr>numele = 1, table = (\<lambda>h. if h = 0 then [\<lparr>key = [], data = 0\<rparr>] else [])\<rparr>"
  have h: "unat (htHash []) = 5381" by (simp add: htHash_def)
  have 1: "no_dup_keys ?t0" by (auto simp: no_dup_keys_def)
  have add: "table (snd (htAdd ?t0 [] 0)) =
     (\<lambda>h. if h = 0 then [\<lparr>key = [], data = 0\<rparr>] else [])(5381 := [\<lparr>key = [], data = 0\<rparr>])"
    by (simp add: htAdd_def htRawLookup_eq h)
  have 2: "\<not> no_dup_keys (snd (htAdd ?t0 [] 0))"
  proof
    assume "no_dup_keys (snd (htAdd ?t0 [] 0))"
    then have "key ` set (table (snd (htAdd ?t0 [] 0)) 0) \<inter>
               key ` set (table (snd (htAdd ?t0 [] 0)) 5381) = {}"
      unfolding no_dup_keys_def HT_TABLE_SIZE_def by simp
    then show False by (simp add: add)
  qed
  from 1 2 show ?thesis by blast
qed

text \<open>
  C5, amended. \<open>htRem\<close> preserves the invariant that no two entries share a key, from any
  state. \<open>htAdd\<close> and \<open>htRem\<close> preserve it together with the fact that every entry is
  chained in the bucket its key hashes to, which holds of the empty table
  (\<open>empty_table_invariant\<close>) and so of every table built from it by these operations.
\<close>

theorem table_invariant_preserved:
  "(no_dup_keys t \<longrightarrow> no_dup_keys (snd (htRem t s))) \<and>
   (no_dup_keys t \<and> in_own_bucket t \<longrightarrow>
      no_dup_keys (snd (htAdd t s d)) \<and> in_own_bucket (snd (htAdd t s d)) \<and>
      no_dup_keys (snd (htRem t s)) \<and> in_own_bucket (snd (htRem t s)))"
  using htRem_no_dup_keys [of t s] htAdd_no_dup_keys [of t s d]
    htAdd_in_own_bucket [of t s d] htRem_in_own_bucket [of t s]
  by blast

text \<open>
  Witness for C5, on the table with three entries, which satisfies both parts of the
  invariant: \<open>htRem\<close> of \<open>"ad"\<close> unlinks the second entry of its chain, \<open>htAdd\<close> of \<open>"ad"\<close>
  meets the existing entry, \<open>htAdd\<close> of \<open>"c"\<close> links a new one; both parts hold of each
  result.
\<close>

theorem table_invariant_preserved_witness:
  "no_dup_keys sample_table \<and> in_own_bucket sample_table \<and>
   htRem sample_table [97, 100] =
     (1, sample_table\<lparr>table := (table sample_table)(63210 := [\<lparr>key = [98, 67], data = 2\<rparr>])\<rparr>) \<and>
   no_dup_keys (snd (htRem sample_table [97, 100])) \<and>
   in_own_bucket (snd (htRem sample_table [97, 100])) \<and>
   fst (htAdd sample_table [97, 100] 9) = 0 \<and>
   no_dup_keys (snd (htAdd sample_table [97, 100] 9)) \<and>
   in_own_bucket (snd (htAdd sample_table [97, 100] 9)) \<and>
   fst (htAdd sample_table [99] 4) = 1 \<and>
   no_dup_keys (snd (htAdd sample_table [99] 4)) \<and>
   in_own_bucket (snd (htAdd sample_table [99] 4))"
proof -
  have rem: "htRem sample_table [97, 100] =
     (1, sample_table\<lparr>table := (table sample_table)(63210 := [\<lparr>key = [98, 67], data = 2\<rparr>])\<rparr>)"
    by (simp add: htRem_def htRawLookup_eq sample_hashes sample_table_def memcmp_def)
  have add: "fst (htAdd sample_table [97, 100] 9) = 0" "fst (htAdd sample_table [99] 4) = 1"
    by (simp_all add: htAdd_def htRawLookup_eq sample_hashes sample_table_def memcmp_def)
  from table_invariant_preserved [of sample_table "[97, 100]" 9]
    table_invariant_preserved [of sample_table "[99]" 4] sample_table_invariant rem add
  show ?thesis by blast
qed

section \<open>The mixing function is a bijection\<close>

lemma xor_right_cancel_word: "a XOR c = b XOR c \<Longrightarrow> a = b" for a b c :: "'a::len word"
proof -
  assume "a XOR c = b XOR c"
  then have "(a XOR c) XOR c = (b XOR c) XOR c" by simp
  then show "a = b" by (simp add: xor.assoc)
qed

lemma int2int_loop_inj:
  "int2int_loop i l r = int2int_loop i l' r' \<Longrightarrow> l = l' \<and> r = r'"
proof (induction "8 - i" arbitrary: i l r l' r')
  case 0
  then have "\<not> i < 8" by simp
  with "0.prems" show ?case by (simp add: int2int_loop.simps)
next
  case (Suc n)
  then have i: "i < 8" and n: "n = 8 - (i + 1)" by simp_all
  let ?F = "\<lambda>r :: 16 word. (word_of_int ((((uint r * 31) + drop_bit 5 (uint r) + 7 * 371) XOR uint r)
                   AND 0xffff) :: 16 word)"
  have step: "int2int_loop i a b = int2int_loop (i + 1) b (a XOR ?F b)" for a b
    using i by (subst int2int_loop.simps) (simp add: Let_def)
  from Suc.prems have "int2int_loop (i + 1) r (l XOR ?F r) = int2int_loop (i + 1) r' (l' XOR ?F r')"
    by (simp only: step)
  from Suc.hyps(1) [OF n this] have r: "r = r'" and "l XOR ?F r = l' XOR ?F r'" by blast+
  then have "l XOR ?F r = l' XOR ?F r" by simp
  then have "l = l'" by (rule xor_right_cancel_word)
  with r show ?case by simp
qed

lemma halves_inj:
  fixes x y :: "32 word"
  assumes "(ucast (x AND 0xffff) :: 16 word) = ucast (y AND 0xffff)"
    and "(ucast (drop_bit 16 x) :: 16 word) = ucast (drop_bit 16 y)"
  shows "x = y"
proof (rule bit_eqI)
  fix n
  assume "possible_bit TYPE(32 word) n"
  then have n: "n < 32" by (simp add: possible_bit_word)
  show "bit x n = bit y n"
  proof (cases "n < 16")
    case True
    have "bit (ucast (x AND 0xffff) :: 16 word) n = bit (ucast (y AND 0xffff) :: 16 word) n"
      using assms(1) by simp
    moreover have "(0xffff :: 32 word) = mask 16" by (simp add: mask_eq_exp_minus_1)
    ultimately show ?thesis using True
      by (simp add: bit_simps)
  next
    case False
    with n have m: "n - 16 < 16" "16 + (n - 16) = n" by simp_all
    have "bit (ucast (drop_bit 16 x) :: 16 word) (n - 16) = bit (ucast (drop_bit 16 y) :: 16 word) (n - 16)"
      using assms(2) by simp
    then show ?thesis using m
      by (simp add: bit_simps)
  qed
qed

lemma join_inj:
  fixes l l' r r' :: "16 word"
  assumes "push_bit 16 (ucast r) OR ucast l = (push_bit 16 (ucast r') OR ucast l' :: 32 word)"
  shows "l = l' \<and> r = r'"
proof -
  let ?j = "\<lambda>(r :: 16 word) (l :: 16 word). (push_bit 16 (ucast r) OR ucast l :: 32 word)"
  have hi: "bit b n \<Longrightarrow> n < 16" for b :: "16 word" and n
    by (auto dest: bit_imp_le_length)
  have bits: "bit (?j a b) n = (if n < 16 then bit b n else bit a (n - 16))" for a b n
    using hi [of b n] hi [of a "n - 16"] by (auto simp: bit_simps)
  have "bit l n = bit l' n" for n
  proof (cases "n < 16")
    case True
    with bits [of r l n] bits [of r' l' n] assms show ?thesis by simp
  next
    case False
    with hi [of l n] hi [of l' n] show ?thesis by blast
  qed
  moreover have "bit r n = bit r' n" for n
  proof (cases "n < 16")
    case True
    with bits [of r l "n + 16"] bits [of r' l' "n + 16"] assms show ?thesis by simp
  next
    case False
    with hi [of r n] hi [of r' n] show ?thesis by blast
  qed
  ultimately show ?thesis by (simp add: bit_eq_iff)
qed

lemma int2int_inj: "inj int2int"
proof (rule injI)
  fix x y
  assume eq: "int2int x = int2int y"
  obtain l r where 1: "int2int_loop 0 (ucast (x AND 0xffff)) (ucast (drop_bit 16 x)) = (l, r)"
    by (cases "int2int_loop 0 (ucast (x AND 0xffff) :: 16 word) (ucast (drop_bit 16 x))")
  obtain l' r' where 2: "int2int_loop 0 (ucast (y AND 0xffff)) (ucast (drop_bit 16 y)) = (l', r')"
    by (cases "int2int_loop 0 (ucast (y AND 0xffff) :: 16 word) (ucast (drop_bit 16 y))")
  from eq have "push_bit 16 (ucast r) OR ucast l = (push_bit 16 (ucast r') OR ucast l' :: 32 word)"
    by (simp add: int2int_def Let_def 1 2)
  then have "l = l' \<and> r = r'" by (rule join_inj)
  with 1 2 have "int2int_loop 0 (ucast (x AND 0xffff)) (ucast (drop_bit 16 x)) =
                 int2int_loop 0 (ucast (y AND 0xffff)) (ucast (drop_bit 16 y))" by simp
  from int2int_loop_inj [OF this] show "x = y" by (simp add: halves_inj)
qed

lemma int2int_bij: "bij int2int"
  using int2int_inj finite_UNIV_inj_surj [of int2int] by (simp add: bij_def)

section \<open>The loops of the key generator\<close>

lemma store_append: "store s off (xs @ ys) = store (store s off xs) (off + length xs) ys"
  by (induction xs arbitrary: s off) simp_all

lemma store_outside: "j < off \<or> off + length xs \<le> j \<Longrightarrow> store s off xs j = s j"
  by (induction xs arbitrary: s off) auto

lemma store_inside: "j < length xs \<Longrightarrow> store s off xs (off + j) = xs ! j"
proof (induction xs arbitrary: s off j)
  case Nil
  then show ?case by simp
next
  case (Cons x xs)
  show ?case
  proof (cases j)
    case 0
    then show ?thesis by (simp add: store_outside)
  next
    case (Suc k)
    with Cons.prems have "k < length xs" by simp
    then have "store (s(off := x)) (Suc off) xs (Suc off + k) = xs ! k"
      by (rule Cons.IH)
    with Suc show ?thesis by simp
  qed
qed

lemma key_bytes_store: "key_bytes (store s 0 (xs @ ys)) (length xs) = xs"
proof (rule nth_equalityI)
  show "length (key_bytes (store s 0 (xs @ ys)) (length xs)) = length xs"
    by (simp add: key_bytes_def)
next
  fix j
  assume "j < length (key_bytes (store s 0 (xs @ ys)) (length xs))"
  then have j: "j < length xs" by (simp add: key_bytes_def)
  then have "store s 0 (xs @ ys) (0 + j) = (xs @ ys) ! j"
    by (intro store_inside) simp
  with j show "key_bytes (store s 0 (xs @ ys)) (length xs) ! j = xs ! j"
    by (simp add: key_bytes_def nth_append)
qed


lemma unat_div62: "unat (i div 62) = unat i div 62" for i :: "32 word"
  by (simp add: unat_div)

lemma unat_mod62: "unat (i mod 62) = unat i mod 62" for i :: "32 word"
  by (simp add: unat_mod)

lemma div62_zero_iff: "i div 62 = 0 \<longleftrightarrow> unat i div 62 = 0" for i :: "32 word"
  using unat_div62 [of i] by (metis unat_eq_0)

lemma int2alphakey_loop_eq:
  "int2alphakey_loop maxlen s len i =
     (store s len (map (\<lambda>d. charset ! d) (take (maxlen - len) (digits62 (unat i)))),
      len + min (maxlen - len) (length (digits62 (unat i))))"
proof (induction maxlen s len i rule: int2alphakey_loop.induct)
  case (1 maxlen s len i)
  show ?case
  proof (cases "len < maxlen")
    case False
    then show ?thesis by (simp add: int2alphakey_loop.simps)
  next
    case True
    then obtain m where m: "maxlen - len = Suc m" "maxlen - (len + 1) = m"
      by (cases "maxlen - len") simp_all
    show ?thesis
    proof (cases "i div 62 = 0")
      case z: True
      then have "digits62 (unat i) = [unat i mod 62]"
        by (subst digits62.simps) (simp add: div62_zero_iff)
      with True z m show ?thesis
        by (subst int2alphakey_loop.simps) (simp add: unat_mod62)
    next
      case nz: False
      then have d: "digits62 (unat i) = (unat i mod 62) # digits62 (unat (i div 62))"
        by (subst digits62.simps) (simp add: div62_zero_iff unat_div62)
      have "int2alphakey_loop maxlen s len i =
            int2alphakey_loop maxlen (s(len := charset ! unat (i mod 62))) (len + 1) (i div 62)"
        using True nz by (subst int2alphakey_loop.simps) (simp only: Let_def if_True if_False)
      also have "\<dots> = (store (s(len := charset ! unat (i mod 62))) (len + 1)
            (map (\<lambda>d. charset ! d) (take (maxlen - (len + 1)) (digits62 (unat (i div 62))))),
          len + 1 + min (maxlen - (len + 1)) (length (digits62 (unat (i div 62)))))"
        by (rule "1.IH" [OF True refl refl refl nz])
      finally show ?thesis
        using m by (simp add: d unat_mod62)
    qed
  qed
qed

lemma digits62_length: "0 < k \<Longrightarrow> n < 62 ^ k \<Longrightarrow> length (digits62 n) \<le> k"
proof (induction k arbitrary: n)
  case 0
  then show ?case by simp
next
  case (Suc k)
  show ?case
  proof (cases "n div 62 = 0")
    case True
    then show ?thesis by (subst digits62.simps) simp
  next
    case False
    then have k: "0 < k" using Suc.prems by (cases k) auto
    have "n div 62 < 62 ^ k"
      using Suc.prems(2) by (simp add: less_mult_imp_div_less mult.commute)
    from Suc.IH [OF k this] False show ?thesis by (subst digits62.simps) simp
  qed
qed

lemma digits62_value: "foldr (\<lambda>d a. d + 62 * a) (digits62 n) 0 = n"
proof (induction n rule: digits62.induct)
  case (1 n)
  show ?case
  proof (cases "n div 62 = 0")
    case True
    then show ?thesis by (subst digits62.simps) simp
  next
    case False
    with "1.IH" show ?thesis by (subst digits62.simps) simp
  qed
qed

lemma digits62_lt: "d \<in> set (digits62 n) \<Longrightarrow> d < 62"
proof (induction n rule: digits62.induct)
  case (1 n)
  from "1.prems" have "d = n mod 62 \<or> (n div 62 \<noteq> 0 \<and> d \<in> set (digits62 (n div 62)))"
    by (subst (asm) digits62.simps) (auto split: if_splits)
  with "1.IH" show ?case by auto
qed

lemma charset_length: "length charset = 62"
  by (simp add: charset_def)

lemma charset_distinct: "distinct charset"
  by (simp add: charset_def)

lemma charset_map_inj:
  assumes "map (\<lambda>d. charset ! d) xs = map (\<lambda>d. charset ! d) ys"
    and "\<forall>d \<in> set xs. d < 62" and "\<forall>d \<in> set ys. d < 62"
  shows "xs = ys"
proof -
  have "inj_on (\<lambda>d. charset ! d) {..<62}"
    using charset_distinct charset_length by (auto simp: inj_on_def nth_eq_iff_index_eq)
  then have "inj_on (map (\<lambda>d. charset ! d)) (lists {..<62})"
    by (simp add: inj_on_map_lists)
  moreover have "xs \<in> lists {..<62}" "ys \<in> lists {..<62}"
    using assms(2,3) by (auto simp: in_lists_conv_set)
  ultimately show ?thesis using assms(1) by (auto simp: inj_on_def)
qed

lemma digits62_fits: "length (digits62 (unat i)) \<le> 63" for i :: "32 word"
proof -
  have "unat i < 2 ^ 32" using unsigned_less [of i, where ?'a = nat] by simp
  then have "unat i < 62 ^ 6" by simp
  from digits62_length [OF _ this] show ?thesis by simp
qed

lemma int2alphakey_64:
  "int2alphakey s 64 i =
     (store s 0 (map (\<lambda>d. charset ! d) (digits62 (unat i)) @ [0]), length (digits62 (unat i)))"
proof -
  let ?ds = "map (\<lambda>d. charset ! d) (digits62 (unat i))"
  have "int2alphakey_loop 63 s 0 i = (store s 0 ?ds, length (digits62 (unat i)))"
    using digits62_fits [of i] by (simp add: int2alphakey_loop_eq min_def)
  then show ?thesis
    by (simp add: int2alphakey_def store_append)
qed

lemma alpha_key_64:
  "int2key rnd p s 64 i KEY_UNIQUE_ALPHA =
     Inr (store s 0 (map (\<lambda>d. charset ! d) (digits62 (unat (int2int i))) @ [0]),
          length (digits62 (unat (int2int i))), p)"
  by (simp add: int2key_def KEY_INT_def KEY_UNIQUE_ALPHA_def int2alphakey_64)

lemma alpha_key_bytes:
  "key_bytes (store s 0 (map (\<lambda>d. charset ! d) (digits62 n) @ [0])) (length (digits62 n)) =
     map (\<lambda>d. charset ! d) (digits62 n)"
  using key_bytes_store [of s "map (\<lambda>d. charset ! d) (digits62 n)" "[0]"]
  by (simp only: length_map)

lemma alpha_key_inj:
  assumes "map (\<lambda>d. charset ! d) (digits62 (unat (int2int i))) =
           map (\<lambda>d. charset ! d) (digits62 (unat (int2int j)))"
  shows "i = j"
proof -
  from assms have "digits62 (unat (int2int i)) = digits62 (unat (int2int j))"
    by (rule charset_map_inj) (auto dest: digits62_lt)
  then have "unat (int2int i) = unat (int2int j)"
    by (metis digits62_value)
  then have "int2int i = int2int j" by (rule word_unat_eq_iff [THEN iffD2])
  then show ?thesis using int2int_inj by (simp add: inj_def)
qed

section \<open>The claims about key generation\<close>

lemma unat_digit: "d < 10 \<Longrightarrow> unat (48 + of_nat d :: byte) = 48 + d"
  by (simp add: unat_word_ariths unat_of_nat)

lemma decimal_value: "foldl (\<lambda>a c. 10 * a + (unat c - 48)) 0 (decimal n) = n"
proof (induction n rule: decimal.induct)
  case (1 n)
  show ?case
  proof (cases "n < 10")
    case True
    then show ?thesis by (subst decimal.simps) (simp add: unat_digit)
  next
    case False
    have "unat (48 + of_nat (n mod 10) :: byte) = 48 + n mod 10"
      by (rule unat_digit) simp
    with False "1.IH" show ?thesis by (subst decimal.simps) simp
  qed
qed

lemma decimal_inj: "decimal n = decimal m \<Longrightarrow> n = m"
  by (metis decimal_value)

lemma decimal_length: "0 < k \<Longrightarrow> n < 10 ^ k \<Longrightarrow> length (decimal n) \<le> k"
proof (induction k arbitrary: n)
  case 0
  then show ?case by simp
next
  case (Suc k)
  show ?case
  proof (cases "n < 10")
    case True
    then show ?thesis by (subst decimal.simps) simp
  next
    case False
    then have k: "0 < k" using Suc.prems by (cases k) auto
    have "n div 10 < 10 ^ k"
      using Suc.prems(2) by (simp add: less_mult_imp_div_less mult.commute)
    from Suc.IH [OF k this] False show ?thesis by (subst decimal.simps) simp
  qed
qed

lemma decimal_fits: "length (decimal (unat i)) \<le> 10" for i :: "32 word"
proof -
  have "unat i < 2 ^ 32" using unsigned_less [of i, where ?'a = nat] by simp
  then have "unat i < 10 ^ 10" by simp
  from decimal_length [OF _ this] show ?thesis by simp
qed

lemma int_key_64:
  "int2key rnd p s 64 i KEY_INT =
     Inr (store s 0 (decimal (unat i) @ [0]), length (decimal (unat i)), p)"
  using decimal_fits [of i] by (simp add: int2key_def snprintf_lu_def Let_def)

lemma key_of_int_64: "key_of (int2key rnd p s 64 i KEY_INT) = Some (decimal (unat i))"
proof -
  have "unat (of_nat (length (decimal (unat i))) :: 32 word) = length (decimal (unat i))"
    using decimal_fits [of i] by (simp add: unat_of_nat)
  then show ?thesis
    by (simp add: key_of_def int_key_64 key_bytes_store)
qed

lemma key_of_alpha_64:
  "key_of (int2key rnd p s 64 i KEY_UNIQUE_ALPHA) =
     Some (map (\<lambda>d. charset ! d) (digits62 (unat (int2int i))))"
proof -
  have "unat (of_nat (length (digits62 (unat (int2int i)))) :: 32 word) =
        length (digits62 (unat (int2int i)))"
    using digits62_fits [of "int2int i"] by (simp add: unat_of_nat)
  then show ?thesis
    by (simp add: key_of_def alpha_key_64 alpha_key_bytes)
qed



text \<open>
  C7. \<open>int2int\<close> is a bijection on the 32-bit words, and \<open>KEY_UNIQUE_ALPHA\<close> generation
  into a buffer of 64 bytes always yields a key and maps distinct indices to distinct keys,
  whatever the buffers held before and whatever the state of the random stream.
\<close>

theorem int2int_bijective_alpha_keys_distinct:
  "bij int2int \<and>
   (\<forall>i j. i \<noteq> j \<longrightarrow>
      key_of (int2key rnd p s 64 i KEY_UNIQUE_ALPHA) \<noteq>
      key_of (int2key rnd' p' s' 64 j KEY_UNIQUE_ALPHA)) \<and>
   (\<forall>i. \<exists>k. key_of (int2key rnd p s 64 i KEY_UNIQUE_ALPHA) = Some k)"
  using int2int_bij alpha_key_inj by (auto simp: key_of_alpha_64)

text \<open>Witness for C7: the keys of the indices 0 and 1 differ.\<close>

theorem int2int_bijective_alpha_keys_distinct_witness:
  "key_of (int2key (\<lambda>_. 0) 0 (\<lambda>_. 0) 64 0 KEY_UNIQUE_ALPHA) \<noteq>
   key_of (int2key (\<lambda>_. 0) 0 (\<lambda>_. 0) 64 1 KEY_UNIQUE_ALPHA)"
  using int2int_bijective_alpha_keys_distinct [of "\<lambda>_. 0" 0 "\<lambda>_. 0" "\<lambda>_. 0" 0 "\<lambda>_. 0"]
  by (simp del: One_nat_def)

text \<open>
  C8. \<open>KEY_INT\<close> generation into a buffer of 64 bytes yields, for the indices 0 to 999999,
  the decimal digits of the index, and these one million keys are pairwise distinct.
\<close>

theorem int_keys_distinct:
  "(\<forall>n < 1000000. \<forall>m < 1000000. n \<noteq> m \<longrightarrow>
      key_of (int2key rnd p s 64 (of_nat n) KEY_INT) \<noteq>
      key_of (int2key rnd' p' s' 64 (of_nat m) KEY_INT)) \<and>
   (\<forall>n < 1000000. key_of (int2key rnd p s 64 (of_nat n) KEY_INT) = Some (decimal n)) \<and>
   card ((\<lambda>n. key_of (int2key rnd p s 64 (of_nat n) KEY_INT)) ` {..<1000000}) = 1000000"
proof -
  have u: "unat (of_nat n :: 32 word) = n" if "n < 1000000" for n
    using that by (simp add: unat_of_nat)
  have k: "key_of (int2key r q b 64 (of_nat n) KEY_INT) = Some (decimal n)"
    if "n < 1000000" for n r q b
    using u [OF that] by (simp add: key_of_int_64)
  have "inj_on (\<lambda>n. key_of (int2key rnd p s 64 (of_nat n) KEY_INT)) {..<1000000}"
    by (rule inj_onI) (auto simp: k dest: decimal_inj)
  then have "card ((\<lambda>n. key_of (int2key rnd p s 64 (of_nat n) KEY_INT)) ` {..<1000000}) = 1000000"
    by (simp add: card_image)
  moreover have "key_of (int2key rnd p s 64 (of_nat n) KEY_INT) \<noteq>
      key_of (int2key rnd' p' s' 64 (of_nat m) KEY_INT)"
    if "n < 1000000" "m < 1000000" "n \<noteq> m" for n m
    using that by (auto simp: k dest: decimal_inj)
  ultimately show ?thesis using k by blast
qed

text \<open>Witness for C8: the keys of 7 and 42 differ, and the key of 42 is \<open>"42"\<close>.\<close>

theorem int_keys_distinct_witness:
  "key_of (int2key (\<lambda>_. 0) 0 (\<lambda>_. 0) 64 7 KEY_INT) \<noteq>
   key_of (int2key (\<lambda>_. 0) 0 (\<lambda>_. 0) 64 42 KEY_INT) \<and>
   key_of (int2key (\<lambda>_. 0) 0 (\<lambda>_. 0) 64 42 KEY_INT) = Some [52, 50]"
proof -
  note t = int_keys_distinct [of "\<lambda>_. 0" 0 "\<lambda>_. 0" "\<lambda>_. 0" 0 "\<lambda>_. 0"]
  have d: "decimal 42 = [52, 50]" by (simp add: decimal.simps)
  from t have "(7::nat) < 1000000 \<longrightarrow> (42::nat) < 1000000 \<longrightarrow> (7::nat) \<noteq> 42 \<longrightarrow>
      key_of (int2key (\<lambda>_. 0) 0 (\<lambda>_. 0) 64 (of_nat 7) KEY_INT) \<noteq>
      key_of (int2key (\<lambda>_. 0) 0 (\<lambda>_. 0) 64 (of_nat 42) KEY_INT)"
    by blast
  then have 1: "key_of (int2key (\<lambda>_. 0) 0 (\<lambda>_. 0) 64 7 KEY_INT) \<noteq>
      key_of (int2key (\<lambda>_. 0) 0 (\<lambda>_. 0) 64 42 KEY_INT)"
    by simp
  from t have "(42::nat) < 1000000 \<longrightarrow>
      key_of (int2key (\<lambda>_. 0) 0 (\<lambda>_. 0) 64 (of_nat 42) KEY_INT) = Some (decimal 42)"
    by blast
  then have "key_of (int2key (\<lambda>_. 0) 0 (\<lambda>_. 0) 64 42 KEY_INT) = Some [52, 50]"
    by (simp add: d)
  with 1 show ?thesis by blast
qed

text \<open>
  C10. With a mode other than the three defined ones \<open>int2key\<close> returns the length 0, the
  empty key, for every index, buffer and capacity; it writes nothing, draws nothing from
  the random stream and raises no fault.
\<close>

theorem int2key_unknown_mode:
  "mode \<noteq> KEY_INT \<Longrightarrow> mode \<noteq> KEY_UNIQUE_ALPHA \<Longrightarrow> mode \<noteq> KEY_RANDOM \<Longrightarrow>
   int2key rnd p s maxlen i mode = Inr (s, 0, p) \<and>
   key_of (int2key rnd p s maxlen i mode) = Some []"
  by (simp add: int2key_def key_of_def key_bytes_def)

text \<open>Witness for C10: the modes 3 and -1.\<close>

theorem int2key_unknown_mode_witness:
  "int2key (\<lambda>_. 0) 0 (\<lambda>_. 0) 64 5 3 = Inr (\<lambda>_. 0, 0, 0) \<and>
   int2key (\<lambda>_. 0) 0 (\<lambda>_. 0) 0 5 (- 1) = Inr (\<lambda>_. 0, 0, 0)"
  using int2key_unknown_mode [of 3 "\<lambda>_. 0" 0 "\<lambda>_. 0" 64 5]
    int2key_unknown_mode [of "- 1" "\<lambda>_. 0" 0 "\<lambda>_. 0" 0 5]
  by (simp add: KEY_INT_def KEY_UNIQUE_ALPHA_def KEY_RANDOM_def)







section \<open>The fuzz runs and the exit status\<close>






lemma main_usage_error:
  "1 < length argv \<Longrightarrow> parse_args (tl argv) (False, False, False) = None \<Longrightarrow>
   main ops e argv w = Inr (1, w\<lparr>out := out w @ [Usage]\<rparr>)"
  by (simp add: main_def)

lemma main_without_fuzz:
  "1 < length argv \<Longrightarrow> parse_args (tl argv) (False, False, False) = Some (b, u, False) \<Longrightarrow>
   main ops e argv w = Inr (0, w)"
  by (simp add: main_def)




end
